theory Spec2Isabelle
  imports Complex_Main "HOL-Library.Multiset"
begin

section \<open>Python dictionaries\<close>

text \<open>
  A Python \<^verbatim>\<open>dict\<close> keeps its keys unique and iterates in insertion order; the order
  is what \<^verbatim>\<open>save_data\<close> sorts, so a dictionary is an association list in iteration order.
  \<open>wf_dict\<close> is the invariant every Python dictionary has: no key occurs twice.
\<close>

type_synonym ('k, 'v) dict = "('k \<times> 'v) list"

definition dict_keys :: "('k, 'v) dict \<Rightarrow> 'k list" where
  "dict_keys d = map fst d"

definition wf_dict :: "('k, 'v) dict \<Rightarrow> bool" where
  "wf_dict d \<longleftrightarrow> distinct (map fst d)"

text \<open>
  \<^verbatim>\<open>d[k] = v\<close>: an existing key keeps its position and takes the new value, a new key
  goes to the end.
\<close>

fun dict_setitem :: "'k \<Rightarrow> 'v \<Rightarrow> ('k, 'v) dict \<Rightarrow> ('k, 'v) dict" where
  "dict_setitem k v [] = [(k, v)]"
| "dict_setitem k v ((k', v') # d) =
     (if k' = k then (k, v) # d else (k', v') # dict_setitem k v d)"

text \<open>\<^verbatim>\<open>dict(pairs)\<close>: the pairs are stored one after the other.\<close>

definition dict_of_items :: "('k \<times> 'v) list \<Rightarrow> ('k, 'v) dict" where
  "dict_of_items ps = fold (\<lambda>(k, v) d. dict_setitem k v d) ps []"

text \<open>
  \<^verbatim>\<open>d1 == d2\<close> on dictionaries: the same number of entries, and every entry of the first
  is found in the second. The order of the entries plays no part.
\<close>

definition dict_eq :: "('k, 'v) dict \<Rightarrow> ('k, 'v) dict \<Rightarrow> bool" where
  "dict_eq d1 d2 \<longleftrightarrow>
     length d1 = length d2 \<and> list_all (\<lambda>(k, v). map_of d2 k = Some v) d1"

type_synonym count_map = "(string, int) dict"

section \<open>Merger\<close>

text \<open>
  \<^verbatim>\<open>
  def merge_data(existing_data, new_data):
      merged_data = existing_data.copy()
      for paroquia, count in new_data.items():
          if paroquia in merged_data:
              merged_data[paroquia] = max(merged_data[paroquia], count)
          else:
              merged_data[paroquia] = count
      return merged_data
  \<close>
  \<open>merge_step\<close> is the body of the loop, \<open>merge_data\<close> runs it over the entries of
  \<open>new_data\<close> in iteration order, starting from the copy of \<open>existing_data\<close>.
\<close>

definition merge_step :: "'k \<times> int \<Rightarrow> ('k, int) dict \<Rightarrow> ('k, int) dict" where
  "merge_step = (\<lambda>(paroquia, count) merged_data.
     case map_of merged_data paroquia of
       Some old \<Rightarrow> dict_setitem paroquia (max old count) merged_data
     | None \<Rightarrow> dict_setitem paroquia count merged_data)"

definition merge_data :: "('k, int) dict \<Rightarrow> ('k, int) dict \<Rightarrow> ('k, int) dict" where
  "merge_data existing_data new_data = fold merge_step new_data existing_data"

section \<open>Strings\<close>

text \<open>
  A Python \<^verbatim>\<open>str\<close> is a sequence of code points. The model keeps one \<open>char\<close> per code
  point and so covers the code points U+0000 to U+00FF, which hold every letter of the
  keywords the script looks for (\<open>CHR 0xF3\<close> is the letter o with acute accent).
  On this range \<^verbatim>\<open>str.isspace\<close> holds for the twelve code points of \<open>py_whitespace\<close>,
  and \<^verbatim>\<open>str.lower\<close> moves A to Z and the accented capitals U+00C0 to U+00DE (the
  multiplication sign U+00D7 apart) up by 32 and leaves every other code point alone.
\<close>

definition py_whitespace :: "char list" where
  "py_whitespace =
     [CHR 0x09, CHR 0x0A, CHR 0x0B, CHR 0x0C, CHR 0x0D, CHR 0x1C, CHR 0x1D, CHR 0x1E,
      CHR 0x1F, CHR 0x20, CHR 0x85, CHR 0xA0]"

definition py_isspace :: "char \<Rightarrow> bool" where
  "py_isspace c \<longleftrightarrow> c \<in> set py_whitespace"

definition py_strip :: "string \<Rightarrow> string" where
  "py_strip s = rev (dropWhile py_isspace (rev (dropWhile py_isspace s)))"

definition lower_char :: "char \<Rightarrow> char" where
  "lower_char c =
     (let n = (of_char c :: nat)
      in if (65 \<le> n \<and> n \<le> 90) \<or> (192 \<le> n \<and> n \<le> 222 \<and> n \<noteq> 215)
         then char_of (n + 32) else c)"

definition py_lower :: "string \<Rightarrow> string" where
  "py_lower s = map lower_char s"

fun py_startswith :: "string \<Rightarrow> string \<Rightarrow> bool" where
  "py_startswith s [] = True"
| "py_startswith [] (p # ps) = False"
| "py_startswith (c # cs) (p # ps) = (c = p \<and> py_startswith cs ps)"

text \<open>\<^verbatim>\<open>sub in s\<close> on strings: \<open>sub\<close> occurs in \<open>s\<close> as a contiguous piece.\<close>

fun py_in :: "string \<Rightarrow> string \<Rightarrow> bool" where
  "py_in sub [] = (sub = [])"
| "py_in sub (c # cs) = (py_startswith (c # cs) sub \<or> py_in sub cs)"

section \<open>Tabulator\<close>

text \<open>
  \<^verbatim>\<open>Counter(xs)\<close> visits the elements in order and does
  \<^verbatim>\<open>self[elem] = self.get(elem, 0) + 1\<close> for each.
\<close>

definition counter_add :: "'k \<Rightarrow> ('k, int) dict \<Rightarrow> ('k, int) dict" where
  "counter_add elem d =
     dict_setitem elem ((case map_of d elem of None \<Rightarrow> 0 | Some n \<Rightarrow> n) + 1) d"

definition Counter :: "'k list \<Rightarrow> ('k, int) dict" where
  "Counter xs = fold counter_add xs []"

text \<open>
  A cell of the table read by \<^verbatim>\<open>pandas.read_csv\<close> is a string or the missing value NaN
  (\<open>None\<close>). A cell of a numeric column is a number, whose \<^verbatim>\<open>str\<close> never holds a letter
  of the keyword, so the filter below drops it as it drops the string of its digits.
\<close>

type_synonym cell = "string option"

definition dropna :: "cell list \<Rightarrow> string list" where
  "dropna cells = List.map_filter id cells"

definition paroquia_kw :: string where
  "paroquia_kw = ''par'' @ [CHR 0xF3] @ ''quia''"

text \<open>
  The condition of the comprehension
  \<^verbatim>\<open>[p for p in paroquias_list if str(p).strip() and 'par\'oquia' in str(p).lower()]\<close>
  (the keyword is written with its accent in the source).
\<close>

definition keeps :: "string \<Rightarrow> bool" where
  "keeps p \<longleftrightarrow> py_strip p \<noteq> [] \<and> py_in paroquia_kw (py_lower p)"

text \<open>
  The tabulation of one column, as \<^verbatim>\<open>process_paroquia_data\<close> does it once the column is
  chosen:
  \<^verbatim>\<open>
  paroquias_list = df[paroquia_column].dropna().tolist()
  paroquias_list = [p for p in paroquias_list if ...]
  paroquia_counts = Counter(paroquias_list)
  result = dict(paroquia_counts)
  \<close>
\<close>

definition tabulate :: "cell list \<Rightarrow> count_map" where
  "tabulate column =
     (let paroquias_list = dropna column;
          paroquias_list = filter keeps paroquias_list;
          paroquia_counts = Counter paroquias_list
      in dict_of_items paroquia_counts)"

text \<open>
  A \<^verbatim>\<open>DataFrame\<close> is the list of its columns, each a header and the cells below it;
  the columns of a frame all have the same number of cells. \<^verbatim>\<open>df.empty\<close> holds when the
  frame has no column or no row.
\<close>

type_synonym dataframe = "(string \<times> cell list) list"

definition df_empty :: "dataframe \<Rightarrow> bool" where
  "df_empty df = (case df of [] \<Rightarrow> True | (col, cells) # rest \<Rightarrow> cells = [])"

definition column_keywords :: "string list" where
  "column_keywords = [paroquia_kw, ''paroquia'', ''cidade'', ''qual sua'']"

definition is_paroquia_column :: "string \<Rightarrow> bool" where
  "is_paroquia_column col \<longleftrightarrow> list_ex (\<lambda>keyword. py_in keyword (py_lower col)) column_keywords"

text \<open>
  The first column whose header holds a keyword; without one, the fifth column when the
  frame has five columns; otherwise no column.
\<close>

definition find_paroquia_column :: "dataframe \<Rightarrow> (string \<times> cell list) option" where
  "find_paroquia_column df =
     (case find (\<lambda>(col, cells). is_paroquia_column col) df of
        Some c \<Rightarrow> Some c
      | None \<Rightarrow> if length df \<ge> 5 then Some (df ! 4) else None)"

definition process_paroquia_data :: "dataframe option \<Rightarrow> count_map" where
  "process_paroquia_data df =
     (case df of
        None \<Rightarrow> []
      | Some d \<Rightarrow>
          if df_empty d then []
          else (case find_paroquia_column d of
                  None \<Rightarrow> []
                | Some (paroquia_column, cells) \<Rightarrow> tabulate cells))"

section \<open>Fetch\<close>

text \<open>
  The spreadsheet export is outside the program: \<open>web\<close> tells, for a sheet identifier, whether
  the request, the temporary file and \<^verbatim>\<open>pandas.read_csv\<close> all went through, and with which
  table. \<^verbatim>\<open>get_sheet_data\<close> catches every exception and returns \<^verbatim>\<open>None\<close> for it.
\<close>

datatype fetch_result = Fetch_failed | Fetched dataframe

definition get_sheet_data :: "(string \<Rightarrow> fetch_result) \<Rightarrow> string \<Rightarrow> dataframe option" where
  "get_sheet_data web sheet_id =
     (case web sheet_id of Fetch_failed \<Rightarrow> None | Fetched df \<Rightarrow> Some df)"

section \<open>Store\<close>

text \<open>
  The persisted state is the text of \<^verbatim>\<open>dados.json\<close>, \<open>None\<close> while the file does not
  exist. \<open>writable\<close> tells whether \<^verbatim>\<open>open('dados.json', 'w')\<close> and the write succeed; when
  they do not, the model leaves the file as it was.
\<close>

record files =
  dados_json :: "string option"
  writable :: bool

text \<open>
  The \<^verbatim>\<open>json\<close> module is a library, taken as a parameter: \<open>json_dump\<close> is the text that
  \<^verbatim>\<open>json.dump(d, f, ensure_ascii=False, indent=2)\<close> writes for a dictionary from strings to
  integers, and \<open>json_parse\<close> gives the members of the object that \<^verbatim>\<open>json.load\<close> reads, in
  the order of the text, or \<open>None\<close> when it raises. \<^verbatim>\<open>json.load\<close> stores the members
  in a dictionary one after the other, so a key written twice keeps its last value.
\<close>

record json =
  json_dump :: "count_map \<Rightarrow> string"
  json_parse :: "string \<Rightarrow> (string \<times> int) list option"

definition json_load :: "json \<Rightarrow> string \<Rightarrow> count_map option" where
  "json_load js text = map_option dict_of_items (json_parse js text)"

definition load_existing_data :: "json \<Rightarrow> files \<Rightarrow> count_map" where
  "load_existing_data js fs =
     (case dados_json fs of
        None \<Rightarrow> []
      | Some text \<Rightarrow> (case json_load js text of None \<Rightarrow> [] | Some data \<Rightarrow> data))"

text \<open>
  \<^verbatim>\<open>sorted(xs, key=key, reverse=True)\<close>: CPython reverses the list, sorts it with its
  stable sort by ascending key, and reverses the result.
\<close>

definition sorted_reverse :: "('a \<Rightarrow> 'b::linorder) \<Rightarrow> 'a list \<Rightarrow> 'a list" where
  "sorted_reverse key xs = rev (sort_key key (rev xs))"

definition sorted_data :: "count_map \<Rightarrow> count_map" where
  "sorted_data data = dict_of_items (sorted_reverse snd data)"

definition save_data :: "json \<Rightarrow> count_map \<Rightarrow> files \<Rightarrow> bool \<times> files" where
  "save_data js data fs =
     (if writable fs
      then (True, fs\<lparr>dados_json := Some (json_dump js (sorted_data data))\<rparr>)
      else (False, fs))"

section \<open>Orchestrator\<close>

datatype py_error = ZeroDivisionError

definition py_truediv :: "int \<Rightarrow> int \<Rightarrow> py_error + rat" where
  "py_truediv a b = (if b = 0 then Inl ZeroDivisionError else Inr (of_int a / of_int b))"

text \<open>
  The final report: the sum of the counts, the number of entries with a positive count,
  and the mean, which is computed only when that number is positive (\<open>None\<close> stands for
  the line that reports a mean of 0). The mean is the exact quotient; its rounding to one
  decimal for printing is not modelled.
\<close>

record stats =
  total_inscricoes :: int
  total_paroquias :: int
  media :: "rat option"

definition final_stats :: "count_map \<Rightarrow> py_error + stats" where
  "final_stats final_data =
     (let total_inscricoes = sum_list (map snd final_data);
          total_paroquias = int (length (filter (\<lambda>(p, c). c > 0) final_data))
      in if total_paroquias > 0
         then (case py_truediv total_inscricoes total_paroquias of
                 Inl e \<Rightarrow> Inl e
               | Inr m \<Rightarrow> Inr \<lparr>total_inscricoes = total_inscricoes,
                              total_paroquias = total_paroquias, media = Some m\<rparr>)
         else Inr \<lparr>total_inscricoes = total_inscricoes,
                   total_paroquias = total_paroquias, media = None\<rparr>)"

text \<open>
  How a run ends: by \<^verbatim>\<open>exit(n)\<close>, by returning from \<^verbatim>\<open>main\<close>, or by an exception
  that nothing catches. The last two give the process the exit codes 0 and 1.
\<close>

datatype run_end = Exit nat | Returned | Raised py_error

fun exit_code :: "run_end \<Rightarrow> nat" where
  "exit_code (Exit n) = n"
| "exit_code Returned = 0"
| "exit_code (Raised e) = 1"

definition default_sheet_id :: string where
  "default_sheet_id = ''1Q7uu8xyc7qde84epVGSO8TJViuDO4mvUnie-dwul9q0''"

text \<open>
  \<open>env\<close> is the value of the environment variable \<^verbatim>\<open>SHEET_ID\<close>, \<open>None\<close> when it is not
  set; \<open>environ_get\<close> is \<^verbatim>\<open>os.environ.get('SHEET_ID', default)\<close>.
\<close>

definition environ_get :: "string option \<Rightarrow> string" where
  "environ_get env = (case env of None \<Rightarrow> default_sheet_id | Some s \<Rightarrow> s)"

text \<open>
  The result of \<open>main\<close> is how the run ends, the files it leaves, and the report when one
  is made.
\<close>

definition main ::
  "json \<Rightarrow> (string \<Rightarrow> fetch_result) \<Rightarrow> string option \<Rightarrow> files
     \<Rightarrow> run_end \<times> files \<times> stats option" where
  "main js web env fs =
     (let sheet_id = environ_get env
      in if sheet_id = [] then (Exit 1, fs, None)
         else
           let df = get_sheet_data web sheet_id;
               new_data = process_paroquia_data df
           in if new_data = [] then (Exit 0, fs, None)
              else
                let existing_data = load_existing_data js fs;
                    final_data = merge_data existing_data new_data;
                    (saved, fs') = save_data js final_data fs
                in if saved
                   then (case final_stats final_data of
                           Inl e \<Rightarrow> (Raised e, fs', None)
                         | Inr report \<Rightarrow> (Returned, fs', Some report))
                   else (Exit 1, fs', None))"

text \<open>Two webs to run \<open>main\<close> on: one where every request fails, one that serves a table.\<close>

definition no_network :: "string \<Rightarrow> fetch_result" where
  "no_network sheet_id = Fetch_failed"

definition serves :: "dataframe \<Rightarrow> string \<Rightarrow> fetch_result" where
  "serves df sheet_id = Fetched df"

section \<open>A JSON library for dictionaries of counts\<close>

text \<open>
  One instance of the library parameter, used to run the store on concrete files. \<open>dumps\<close>
  writes what \<^verbatim>\<open>json.dumps(d, ensure_ascii=False, indent=2)\<close> writes for a dictionary from
  strings to integers: one member per line behind two spaces, the quote, the backslash and
  the control characters of a key escaped, every other character as it is, counts in
  decimal. \<open>loads\<close> reads a JSON object whose values are integers, under the grammar of
  \<^verbatim>\<open>json.loads\<close>; any other text gives \<open>None\<close>. The loop over the members takes the length
  of the text as fuel, which it cannot use up since every round consumes a character.
\<close>

definition hex_digits :: string where
  "hex_digits = ''0123456789abcdef''"

definition escape_char :: "char \<Rightarrow> string" where
  "escape_char c =
     (if c = CHR 0x22 then [CHR 0x5C, CHR 0x22]
      else if c = CHR 0x5C then [CHR 0x5C, CHR 0x5C]
      else if c = CHR 0x0A then [CHR 0x5C, CHR ''n'']
      else if c = CHR 0x0D then [CHR 0x5C, CHR ''r'']
      else if c = CHR 0x09 then [CHR 0x5C, CHR ''t'']
      else if c = CHR 0x08 then [CHR 0x5C, CHR ''b'']
      else if c = CHR 0x0C then [CHR 0x5C, CHR ''f'']
      else if (of_char c :: nat) < 32
        then [CHR 0x5C, CHR ''u'', CHR ''0'', CHR ''0'',
              hex_digits ! (of_char c div 16), hex_digits ! (of_char c mod 16)]
      else [c])"

definition encode_string :: "string \<Rightarrow> string" where
  "encode_string s = [CHR 0x22] @ concat (map escape_char s) @ [CHR 0x22]"

fun digits :: "nat \<Rightarrow> string" where
  "digits n =
     (if n < 10 then [char_of (48 + n)] else digits (n div 10) @ [char_of (48 + n mod 10)])"

declare digits.simps [simp del]

definition str_int :: "int \<Rightarrow> string" where
  "str_int i = (if i < 0 then ''-'' else []) @ digits (nat \<bar>i\<bar>)"

definition encode_item :: "string \<times> int \<Rightarrow> string" where
  "encode_item = (\<lambda>(k, v). encode_string k @ '': '' @ str_int v)"

fun join :: "string \<Rightarrow> string list \<Rightarrow> string" where
  "join sep [] = []"
| "join sep [x] = x"
| "join sep (x # y # ys) = x @ sep @ join sep (y # ys)"

definition member_sep :: string where
  "member_sep = '','' @ [CHR 0x0A] @ ''  ''"

definition dumps :: "count_map \<Rightarrow> string" where
  "dumps d =
     (if d = [] then ''{}''
      else ''{'' @ [CHR 0x0A] @ ''  '' @ join member_sep (map encode_item d)
           @ [CHR 0x0A] @ ''}'')"

definition json_ws :: "char \<Rightarrow> bool" where
  "json_ws c \<longleftrightarrow> c \<in> set [CHR 0x20, CHR 0x09, CHR 0x0A, CHR 0x0D]"

definition skip_ws :: "string \<Rightarrow> string" where
  "skip_ws s = dropWhile json_ws s"

definition hex_value :: "char \<Rightarrow> nat option" where
  "hex_value c =
     (let n = (of_char c :: nat)
      in if 48 \<le> n \<and> n \<le> 57 then Some (n - 48)
         else if 97 \<le> n \<and> n \<le> 102 then Some (n - 87)
         else if 65 \<le> n \<and> n \<le> 70 then Some (n - 55)
         else None)"

definition hex4 :: "string \<Rightarrow> char option" where
  "hex4 s =
     (case map hex_value s of
        [Some a, Some b, Some c, Some d] \<Rightarrow>
          (let n = ((a * 16 + b) * 16 + c) * 16 + d
           in if n < 256 then Some (char_of n) else None)
      | _ \<Rightarrow> None)"

definition unescape :: "char \<Rightarrow> char option" where
  "unescape e =
     (if e = CHR 0x22 then Some (CHR 0x22)
      else if e = CHR 0x5C then Some (CHR 0x5C)
      else if e = CHR ''/'' then Some (CHR ''/'')
      else if e = CHR ''b'' then Some (CHR 0x08)
      else if e = CHR ''f'' then Some (CHR 0x0C)
      else if e = CHR ''n'' then Some (CHR 0x0A)
      else if e = CHR ''r'' then Some (CHR 0x0D)
      else if e = CHR ''t'' then Some (CHR 0x09)
      else None)"

definition cons_fst :: "'a \<Rightarrow> ('a list \<times> 'b) option \<Rightarrow> ('a list \<times> 'b) option" where
  "cons_fst x r = map_option (\<lambda>(xs, rest). (x # xs, rest)) r"

function scan_string :: "string \<Rightarrow> (string \<times> string) option" where
  "scan_string s =
     (case s of
        [] \<Rightarrow> None
      | c # cs \<Rightarrow>
          if c = CHR 0x22 then Some ([], cs)
          else if c = CHR 0x5C then
            (case cs of
               [] \<Rightarrow> None
             | e # es \<Rightarrow>
                 if e = CHR ''u'' then
                   (case hex4 (take 4 es) of
                      None \<Rightarrow> None
                    | Some x \<Rightarrow> cons_fst x (scan_string (drop 4 es)))
                 else (case unescape e of
                         None \<Rightarrow> None
                       | Some x \<Rightarrow> cons_fst x (scan_string es)))
          else if (of_char c :: nat) < 32 then None
          else cons_fst c (scan_string cs))"
  by pat_completeness auto
termination
  by (relation "measure length") auto

declare scan_string.simps [simp del]

definition is_digit :: "char \<Rightarrow> bool" where
  "is_digit c \<longleftrightarrow> 48 \<le> (of_char c :: nat) \<and> (of_char c :: nat) \<le> 57"

definition scan_int :: "string \<Rightarrow> (int \<times> string) option" where
  "scan_int s =
     (let (neg, body) = (case s of [] \<Rightarrow> (False, s)
                         | c # cs \<Rightarrow> if c = CHR ''-'' then (True, cs) else (False, s));
          ds = takeWhile is_digit body;
          rest = dropWhile is_digit body
      in if ds = [] \<or> (length ds > 1 \<and> hd ds = CHR ''0'') then None
         else if (case rest of [] \<Rightarrow> False | c # cs \<Rightarrow> c \<in> set ''.eE'') then None
         else let n = foldl (\<lambda>a d. 10 * a + (of_char d - 48)) (0::nat) ds
              in Some (if neg then - int n else int n, rest))"

text \<open>What may follow a number: not a digit, and none of the marks of a fraction or exponent.\<close>

definition ends_number :: "char \<Rightarrow> bool" where
  "ends_number t \<longleftrightarrow> \<not> is_digit t \<and> t \<notin> set ''.eE''"

fun scan_members :: "nat \<Rightarrow> string \<Rightarrow> ((string \<times> int) list \<times> string) option" where
  "scan_members 0 s = None"
| "scan_members (Suc fuel) s =
     (case s of
        [] \<Rightarrow> None
      | q # s1 \<Rightarrow>
          if q \<noteq> CHR 0x22 then None
          else (case scan_string s1 of
                  None \<Rightarrow> None
                | Some (k, s2) \<Rightarrow>
                    (case skip_ws s2 of
                       [] \<Rightarrow> None
                     | colon # s3 \<Rightarrow>
                         if colon \<noteq> CHR '':'' then None
                         else (case scan_int (skip_ws s3) of
                                 None \<Rightarrow> None
                               | Some (v, s4) \<Rightarrow>
                                   (case skip_ws s4 of
                                      [] \<Rightarrow> None
                                    | d # s5 \<Rightarrow>
                                        if d = CHR ''}'' then Some ([(k, v)], s5)
                                        else if d = CHR '','' then
                                          cons_fst (k, v) (scan_members fuel (skip_ws s5))
                                        else None)))))"

definition loads :: "string \<Rightarrow> (string \<times> int) list option" where
  "loads text =
     (case skip_ws text of
        [] \<Rightarrow> None
      | b # s1 \<Rightarrow>
          if b \<noteq> CHR ''{'' then None
          else (case (case skip_ws s1 of
                        [] \<Rightarrow> None
                      | c # s2 \<Rightarrow> if c = CHR ''}'' then Some ([], s2)
                                  else scan_members (length s1) (skip_ws s1)) of
                  None \<Rightarrow> None
                | Some (ms, rest) \<Rightarrow> if skip_ws rest = [] then Some ms else None))"

definition py_json :: json where
  "py_json = \<lparr>json_dump = dumps, json_parse = loads\<rparr>"

section \<open>Example inputs\<close>

text \<open>
  A sheet with four rows, a sheet whose category column is blank, and a writable store
  that holds two counts.
\<close>

definition example_sheet :: dataframe where
  "example_sheet =
     [(''Nome'', [Some ''Ana'', Some ''Rui'', Some ''Lia'', Some ''Edu'']),
      (''Qual sua paroquia?'',
       [Some (''Par'' @ [CHR 0xF3] @ ''quia A''), None,
        Some (''Par'' @ [CHR 0xF3] @ ''quia A''), Some (''Par'' @ [CHR 0xF3] @ ''quia B'')])]"

definition blank_sheet :: dataframe where
  "blank_sheet = [(''Nome'', [Some ''Ana'', Some ''Rui'']), (''Paroquia'', [None, Some ''  ''])]"

definition example_files :: files where
  "example_files =
     \<lparr>dados_json = Some (dumps [(''Par'' @ [CHR 0xF3] @ ''quia A'', 5), (''St. Joseph'', 2)]),
      writable = True\<rparr>"

section \<open>Facts about dictionaries\<close>

lemma map_of_dict_setitem: "map_of (dict_setitem k v d) = (map_of d)(k \<mapsto> v)"
  by (induction d) (auto simp: fun_eq_iff)

lemma keys_dict_setitem:
  "map fst (dict_setitem k v d) = (if k \<in> fst ` set d then map fst d else map fst d @ [k])"
  by (induction d) (auto simp: rev_image_eqI)

lemma set_keys_dict_setitem: "fst ` set (dict_setitem k v d) = insert k (fst ` set d)"
  using arg_cong [OF keys_dict_setitem, of set k v d] by (auto simp del: set_map simp: set_map [symmetric])

lemma wf_dict_setitem: "wf_dict d \<Longrightarrow> wf_dict (dict_setitem k v d)"
  by (simp add: wf_dict_def keys_dict_setitem)

lemma dict_setitem_new: "k \<notin> fst ` set d \<Longrightarrow> dict_setitem k v d = d @ [(k, v)]"
  by (induction d) auto

lemma dict_setitem_same: "map_of d k = Some v \<Longrightarrow> dict_setitem k v d = d"
  by (induction d) (auto split: if_splits)

lemma map_of_eq_None_keys: "map_of d k = None \<longleftrightarrow> k \<notin> fst ` set d"
  by (simp add: map_of_eq_None_iff)

section \<open>Facts about the merger\<close>

lemma map_of_merge_step:
  "map_of (merge_step (k, c) d) =
     (map_of d)(k \<mapsto> (case map_of d k of None \<Rightarrow> c | Some old \<Rightarrow> max old c))"
  by (simp add: merge_step_def map_of_dict_setitem split: option.split)

lemma keys_merge_step:
  "fst ` set (merge_step (k, c) d) = insert k (fst ` set d)"
  by (simp add: merge_step_def set_keys_dict_setitem split: option.split)

lemma keys_fold_merge_step:
  "fst ` set (fold merge_step B A) = fst ` set A \<union> fst ` set B"
proof (induction B arbitrary: A)
  case Nil
  show ?case by simp
next
  case (Cons p B)
  obtain k c where p: "p = (k, c)" by (cases p)
  show ?case by (simp add: Cons.IH p keys_merge_step)
qed

lemma wf_merge_step: "wf_dict d \<Longrightarrow> wf_dict (merge_step p d)"
  by (cases p) (simp add: merge_step_def wf_dict_setitem split: option.split)

lemma wf_fold_merge_step: "wf_dict A \<Longrightarrow> wf_dict (fold merge_step B A)"
  by (induction B arbitrary: A) (simp_all add: wf_merge_step)

text \<open>The value of a key after the loop, when no key is met twice by the loop.\<close>

lemma map_of_fold_merge_step:
  "distinct (map fst B) \<Longrightarrow>
   map_of (fold merge_step B A) k =
     (case map_of B k of
        None \<Rightarrow> map_of A k
      | Some b \<Rightarrow> (case map_of A k of None \<Rightarrow> Some b | Some a \<Rightarrow> Some (max a b)))"
proof (induction B arbitrary: A)
  case Nil
  show ?case by simp
next
  case (Cons p B)
  obtain k' c where p: "p = (k', c)" by (cases p)
  from Cons.prems p have notin: "k' \<notin> fst ` set B" and dist: "distinct (map fst B)"
    by simp_all
  from notin have none: "map_of B k' = None"
    by (simp add: map_of_eq_None_keys)
  have step: "map_of (fold merge_step B (merge_step (k', c) A)) k =
     (case map_of B k of
        None \<Rightarrow> map_of (merge_step (k', c) A) k
      | Some b \<Rightarrow> (case map_of (merge_step (k', c) A) k of
                    None \<Rightarrow> Some b | Some a \<Rightarrow> Some (max a b)))"
    by (rule Cons.IH [OF dist])
  show ?case
  proof (cases "k = k'")
    case True
    have "map_of (fold merge_step B (merge_step (k', c) A)) k' =
        (case map_of A k' of None \<Rightarrow> Some c | Some a \<Rightarrow> Some (max a c))"
      using step none unfolding True
      by (simp add: map_of_merge_step split: option.split)
    then show ?thesis
      by (simp add: p True)
  next
    case False
    then show ?thesis
      by (simp add: p step map_of_merge_step split: option.split)
  qed
qed

text \<open>A key whose stored count already covers \<open>b\<close> keeps covering it through the loop.\<close>

lemma merge_step_covers:
  "map_of d k = Some m \<Longrightarrow> b \<le> m \<Longrightarrow> \<exists>m'. map_of (merge_step p d) k = Some m' \<and> b \<le> m'"
  by (cases p) (auto simp: map_of_merge_step)

lemma fold_merge_step_covers:
  "map_of d k = Some m \<Longrightarrow> b \<le> m \<Longrightarrow>
   \<exists>m'. map_of (fold merge_step B d) k = Some m' \<and> b \<le> m'"
proof (induction B arbitrary: d m)
  case Nil
  then show ?case by simp
next
  case (Cons p B)
  from merge_step_covers [OF Cons.prems] obtain m' where
    "map_of (merge_step p d) k = Some m'" "b \<le> m'" by blast
  from Cons.IH [OF this] show ?case by simp
qed

lemma fold_merge_step_covers_new:
  "(k, b) \<in> set B \<Longrightarrow> \<exists>m. map_of (fold merge_step B A) k = Some m \<and> b \<le> m"
proof (induction B arbitrary: A)
  case Nil
  then show ?case by simp
next
  case (Cons p B)
  show ?case
  proof (cases "p = (k, b)")
    case True
    have "\<exists>m. map_of (merge_step (k, b) A) k = Some m \<and> b \<le> m"
      by (simp add: map_of_merge_step split: option.split)
    then obtain m where "map_of (merge_step (k, b) A) k = Some m" "b \<le> m" by blast
    from fold_merge_step_covers [OF this] show ?thesis by (simp add: True)
  next
    case False
    with Cons.prems have "(k, b) \<in> set B" by simp
    from Cons.IH [OF this] show ?thesis by simp
  qed
qed

text \<open>Running the loop over entries that the dictionary already covers changes nothing.\<close>

lemma fold_merge_step_fixed:
  "\<forall>(k, b) \<in> set B. \<exists>m. map_of M k = Some m \<and> b \<le> m \<Longrightarrow> fold merge_step B M = M"
proof (induction B)
  case Nil
  show ?case by simp
next
  case (Cons p B)
  obtain k b where p: "p = (k, b)" by (cases p)
  from Cons.prems p obtain m where m: "map_of M k = Some m" "b \<le> m" by auto
  then have "merge_step p M = M"
    by (simp add: p merge_step_def dict_setitem_same max_absorb1)
  with Cons show ?case by simp
qed

lemma fold_merge_step_append:
  "distinct (map fst (A @ B)) \<Longrightarrow> fold merge_step B A = A @ B"
proof (induction B arbitrary: A)
  case Nil
  show ?case by simp
next
  case (Cons p B)
  obtain k c where p: "p = (k, c)" by (cases p)
  from Cons.prems p have notin: "k \<notin> fst ` set A" by auto
  then have step: "merge_step p A = A @ [p]"
    by (simp add: p merge_step_def dict_setitem_new map_of_eq_None_keys [THEN iffD2])
  from Cons.prems have "distinct (map fst ((A @ [p]) @ B))" by simp
  from Cons.IH [OF this] show ?case by (simp add: step)
qed

section \<open>The merge contract\<close>

text \<open>
  C1. For dictionaries \<open>A\<close> and \<open>B\<close>, every key of \<open>A\<close> and every key of \<open>B\<close> is a key of
  \<open>merge_data A B\<close>; a key held by both has the larger of its two counts in the result;
  a key held by \<open>A\<close> alone keeps the count it has in \<open>A\<close>.
\<close>

theorem merge_data_keys_max:
  assumes "wf_dict A" and "wf_dict B"
  shows "set (dict_keys A) \<union> set (dict_keys B) \<subseteq> set (dict_keys (merge_data A B))
    \<and> (\<forall>k a b. map_of A k = Some a \<and> map_of B k = Some b
          \<longrightarrow> map_of (merge_data A B) k = Some (max a b))
    \<and> (\<forall>k a. map_of A k = Some a \<and> k \<notin> set (dict_keys B)
          \<longrightarrow> map_of (merge_data A B) k = Some a)"
proof -
  from assms(2) have dist: "distinct (map fst B)" by (simp add: wf_dict_def)
  have keys: "set (dict_keys A) \<union> set (dict_keys B) \<subseteq> set (dict_keys (merge_data A B))"
    by (simp add: dict_keys_def merge_data_def keys_fold_merge_step)
  have both: "map_of (merge_data A B) k = Some (max a b)"
    if "map_of A k = Some a \<and> map_of B k = Some b" for k a b
    using that by (simp add: merge_data_def map_of_fold_merge_step [OF dist])
  have only: "map_of (merge_data A B) k = Some a"
    if "map_of A k = Some a \<and> k \<notin> set (dict_keys B)" for k a
    using that
    by (simp add: merge_data_def dict_keys_def map_of_fold_merge_step [OF dist]
        map_of_eq_None_keys [THEN iffD2])
  from keys both only show ?thesis by blast
qed

theorem merge_data_keys_max_witness:
  "wf_dict [(''St. Mary'', 5::int), (''St. Joseph'', 2)]
   \<and> wf_dict [(''St. Mary'', 2::int), (''St. Anne'', 1)]
   \<and> set (dict_keys [(''St. Mary'', 5::int), (''St. Joseph'', 2)])
        \<union> set (dict_keys [(''St. Mary'', 2::int), (''St. Anne'', 1)])
      \<subseteq> set (dict_keys (merge_data [(''St. Mary'', 5), (''St. Joseph'', 2)]
           [(''St. Mary'', 2), (''St. Anne'', 1)]))
   \<and> map_of (merge_data [(''St. Mary'', 5), (''St. Joseph'', 2)]
        [(''St. Mary'', 2), (''St. Anne'', 1)]) ''St. Mary'' = Some 5
   \<and> map_of (merge_data [(''St. Mary'', 5), (''St. Joseph'', 2)]
        [(''St. Mary'', 2), (''St. Anne'', 1)]) ''St. Joseph'' = Some 2"
proof -
  have a: "wf_dict [(''St. Mary'', 5::int), (''St. Joseph'', 2)]"
    by (simp add: wf_dict_def)
  have b: "wf_dict [(''St. Mary'', 2::int), (''St. Anne'', 1)]"
    by (simp add: wf_dict_def)
  note th = merge_data_keys_max [OF a b]
  have mary: "map_of (merge_data [(''St. Mary'', 5), (''St. Joseph'', 2)]
        [(''St. Mary'', 2), (''St. Anne'', 1)]) ''St. Mary'' = Some 5"
    using th [THEN conjunct2, THEN conjunct1, rule_format, of "''St. Mary''" 5 2] by simp
  have joseph: "map_of (merge_data [(''St. Mary'', 5), (''St. Joseph'', 2)]
        [(''St. Mary'', 2), (''St. Anne'', 1)]) ''St. Joseph'' = Some 2"
    using th [THEN conjunct2, THEN conjunct2, rule_format, of "''St. Joseph''" 2]
    by (simp add: dict_keys_def)
  from a b th [THEN conjunct1] mary joseph show ?thesis by blast
qed

text \<open>
  C5. Merging with an empty fresh dictionary gives back the existing one, merging fresh
  data into an empty dictionary gives the fresh data, and merging the same fresh data a
  second time changes nothing.
\<close>

theorem merge_data_laws:
  "merge_data A [] = A
   \<and> (wf_dict B \<longrightarrow> merge_data [] B = B)
   \<and> merge_data (merge_data A B) B = merge_data A B"
proof -
  have left: "merge_data A [] = A"
    by (simp add: merge_data_def)
  have right: "merge_data [] B = B" if "wf_dict B"
    using that fold_merge_step_append [of "[]" B] by (simp add: merge_data_def wf_dict_def)
  have covered: "\<forall>(k, b) \<in> set B. \<exists>m. map_of (fold merge_step B A) k = Some m \<and> b \<le> m"
    using fold_merge_step_covers_new [of _ _ B A] by blast
  have idem: "merge_data (merge_data A B) B = merge_data A B"
    unfolding merge_data_def by (rule fold_merge_step_fixed [OF covered])
  from left right idem show ?thesis by blast
qed

theorem merge_data_laws_witness:
  "wf_dict [(''St. Mary'', 2::int), (''St. Anne'', 1)]
   \<and> merge_data [(''St. Mary'', 5::int), (''St. Joseph'', 2)] [] = [(''St. Mary'', 5), (''St. Joseph'', 2)]
   \<and> merge_data [] [(''St. Mary'', 2::int), (''St. Anne'', 1)] = [(''St. Mary'', 2), (''St. Anne'', 1)]
   \<and> merge_data (merge_data [(''St. Mary'', 5), (''St. Joseph'', 2)] [(''St. Mary'', 2), (''St. Anne'', 1)])
        [(''St. Mary'', 2), (''St. Anne'', 1)]
      = merge_data [(''St. Mary'', 5), (''St. Joseph'', 2)] [(''St. Mary'', 2), (''St. Anne'', 1)]"
proof -
  have b: "wf_dict [(''St. Mary'', 2::int), (''St. Anne'', 1)]"
    by (simp add: wf_dict_def)
  note th = merge_data_laws [of "[(''St. Mary'', 5), (''St. Joseph'', 2)]"
      "[(''St. Mary'', 2), (''St. Anne'', 1)]"]
  from b th show ?thesis by blast
qed

section \<open>The tabulator\<close>

text \<open>
  C3. The claim has the tabulator drop the values that contain the header phrase and count
  the others, so that the three labels St. Mary, St. Mary, St. Anne give the counts 2 and 1.
  The comprehension in the source keeps a value only if it does contain the keyword: the
  three labels give an empty dictionary, and a value that repeats the header is counted.
\<close>

theorem tabulate_keeps_only_keyword:
  "tabulate [Some ''St. Mary'', Some ''St. Mary'', Some ''St. Anne''] = []
   \<and> tabulate [Some (''Qual sua par'' @ [CHR 0xF3] @ ''quia?''), Some ''St. Mary'']
       = [(''Qual sua par'' @ [CHR 0xF3] @ ''quia?'', 1)]"
  by code_simp


section \<open>The JSON library reads back what it writes\<close>

text \<open>
  \<open>loads\<close> inverts \<open>dumps\<close> on every dictionary of counts: first for the decimal numbers,
  then for the escaped keys, then for the members of the object.
\<close>

lemma of_char_digit: "m < 10 \<Longrightarrow> (of_char (char_of (48 + m :: nat)) :: nat) = 48 + m"
  by (simp add: of_char_of)

lemma is_digit_char_of: "m < 10 \<Longrightarrow> is_digit (char_of (48 + m :: nat))"
  by (simp add: is_digit_def of_char_digit)

lemma digits_all: "\<forall>c \<in> set (digits n). is_digit c"
proof (induction n rule: digits.induct)
  case (1 n)
  show ?case
  proof (cases "n < 10")
    case True
    then show ?thesis
      by (subst digits.simps) (simp add: is_digit_char_of)
  next
    case False
    with "1" have "\<forall>c \<in> set (digits (n div 10)). is_digit c" by simp
    moreover have "is_digit (char_of (48 + n mod 10))"
      by (rule is_digit_char_of) simp
    ultimately show ?thesis
      using False by (subst digits.simps) simp
  qed
qed

lemma digits_not_empty: "digits n \<noteq> []"
  by (subst digits.simps) simp

lemma digits_value: "foldl (\<lambda>a d. 10 * a + (of_char d - 48)) (0::nat) (digits n) = n"
proof (induction n rule: digits.induct)
  case (1 n)
  show ?case
  proof (cases "n < 10")
    case True
    then show ?thesis
      by (subst digits.simps) (simp add: of_char_digit)
  next
    case False
    with "1" have "foldl (\<lambda>a d. 10 * a + (of_char d - 48)) (0::nat) (digits (n div 10)) = n div 10"
      by simp
    moreover have "(of_char (char_of (48 + n mod 10)) :: nat) = 48 + n mod 10"
      by (rule of_char_digit) simp
    ultimately show ?thesis
      using False by (subst digits.simps) simp
  qed
qed

lemma digits_hd_nonzero: "0 < n \<Longrightarrow> hd (digits n) \<noteq> CHR ''0''"
proof (induction n rule: digits.induct)
  case (1 n)
  show ?case
  proof (cases "n < 10")
    case True
    have "(of_char (char_of (48 + n)) :: nat) \<noteq> of_char (CHR ''0'')"
      using True "1.prems" by (simp add: of_char_digit)
    then have "char_of (48 + n) \<noteq> CHR ''0''" by metis
    with True show ?thesis
      by (subst digits.simps) simp
  next
    case False
    then have "0 < n div 10" by simp
    with "1.IH" False have "hd (digits (n div 10)) \<noteq> CHR ''0''" by simp
    with False show ?thesis
      by (subst digits.simps) (simp add: digits_not_empty)
  qed
qed

lemma digits_single: "length (digits n) > 1 \<Longrightarrow> 0 < n"
  by (cases "n = 0") (simp_all add: digits.simps [of 0])

lemma digits_hd_not_minus: "hd (digits n) \<noteq> CHR ''-''"
proof -
  have "hd (digits n) \<in> set (digits n)"
    by (simp add: digits_not_empty)
  with digits_all have "is_digit (hd (digits n))" by blast
  then show ?thesis
    by (auto simp: is_digit_def)
qed

lemma scan_int_digits:
  assumes "ends_number t"
  shows "scan_int (digits n @ t # ts) = Some (int n, t # ts)"
    and "scan_int (CHR ''-'' # digits n @ t # ts) = Some (- int n, t # ts)"
proof -
  have tw: "takeWhile is_digit (digits n @ t # ts) = digits n"
    using assms digits_all [of n] by (simp add: ends_number_def takeWhile_append2)
  have dw: "dropWhile is_digit (digits n @ t # ts) = t # ts"
    using assms digits_all [of n] by (simp add: ends_number_def dropWhile_append2)
  have lead: "\<not> (length (digits n) > 1 \<and> hd (digits n) = CHR ''0'')"
    using digits_hd_nonzero [OF digits_single, of n] by blast
  have rest: "\<not> (case t # ts of [] \<Rightarrow> False | c # cs \<Rightarrow> c \<in> set ''.eE'')"
    using assms by (simp add: ends_number_def)
  obtain c cs where cs: "digits n = c # cs"
    using digits_not_empty [of n] by (cases "digits n") auto
  with digits_hd_not_minus [of n] have c: "c \<noteq> CHR ''-''" by simp
  have body: "(case digits n @ t # ts of [] \<Rightarrow> (False, digits n @ t # ts)
      | c # cs \<Rightarrow> if c = CHR ''-'' then (True, cs) else (False, digits n @ t # ts))
      = (False, digits n @ t # ts)"
    using c by (simp add: cs)
  show "scan_int (digits n @ t # ts) = Some (int n, t # ts)"
    unfolding scan_int_def body using lead rest
    by (simp add: tw dw digits_not_empty digits_value Let_def del: set_simps)
  show "scan_int (CHR ''-'' # digits n @ t # ts) = Some (- int n, t # ts)"
    unfolding scan_int_def using lead rest
    by (simp add: tw dw digits_not_empty digits_value Let_def del: set_simps)
qed

lemma scan_int_str_int:
  assumes "ends_number t"
  shows "scan_int (str_int v @ t # ts) = Some (v, t # ts)"
proof (cases "v < 0")
  case True
  then show ?thesis
    using scan_int_digits(2) [OF assms, of "nat \<bar>v\<bar>" ts] by (simp add: str_int_def)
next
  case False
  then show ?thesis
    using scan_int_digits(1) [OF assms, of "nat \<bar>v\<bar>" ts] by (simp add: str_int_def)
qed

lemma hex_value_hex_digits: "\<forall>i \<in> set [0..<16]. hex_value (hex_digits ! i) = Some i"
  by code_simp

lemma hex_value_digit: "i < 16 \<Longrightarrow> hex_value (hex_digits ! i) = Some i"
  using hex_value_hex_digits by simp

lemma hex_value_zero: "hex_value (CHR ''0'') = Some 0"
  by code_simp

lemma hex4_control:
  assumes "(of_char c :: nat) < 32"
  shows "hex4 [CHR ''0'', CHR ''0'', hex_digits ! (of_char c div 16), hex_digits ! (of_char c mod 16)]
    = Some c"
proof -
  let ?n = "of_char c :: nat"
  have hi: "hex_value (hex_digits ! (?n div 16)) = Some (?n div 16)"
    using assms by (intro hex_value_digit) simp
  have lo: "hex_value (hex_digits ! (?n mod 16)) = Some (?n mod 16)"
    by (intro hex_value_digit) simp
  have "?n div 16 * 16 + ?n mod 16 = ?n" by simp
  moreover have "char_of ?n = c" by simp
  ultimately show ?thesis
    using assms by (simp add: hex4_def hex_value_zero hi lo del: div_mult_mod_eq)
qed

lemma scan_string_quote: "scan_string (CHR 0x22 # rest) = Some ([], rest)"
  by (subst scan_string.simps) simp

lemma scan_string_escape:
  "unescape e = Some x \<Longrightarrow> e \<noteq> CHR ''u'' \<Longrightarrow>
   scan_string (CHR 0x5C # e # rest) = cons_fst x (scan_string rest)"
  by (subst scan_string.simps) simp

lemma scan_string_unicode:
  "hex4 [a, b, c, d] = Some x \<Longrightarrow>
   scan_string (CHR 0x5C # CHR ''u'' # a # b # c # d # rest) = cons_fst x (scan_string rest)"
  by (subst scan_string.simps) simp

lemma scan_string_plain:
  "c \<noteq> CHR 0x22 \<Longrightarrow> c \<noteq> CHR 0x5C \<Longrightarrow> \<not> (of_char c :: nat) < 32 \<Longrightarrow>
   scan_string (c # rest) = cons_fst c (scan_string rest)"
  by (subst scan_string.simps) simp

lemma scan_string_escape_char:
  "scan_string (escape_char c @ rest) = cons_fst c (scan_string rest)"
proof -
  consider "c = CHR 0x22" | "c = CHR 0x5C" | "c = CHR 0x0A" | "c = CHR 0x0D" | "c = CHR 0x09"
    | "c = CHR 0x08" | "c = CHR 0x0C"
    | "c \<notin> set [CHR 0x22, CHR 0x5C, CHR 0x0A, CHR 0x0D, CHR 0x09, CHR 0x08, CHR 0x0C]"
        "(of_char c :: nat) < 32"
    | "c \<notin> set [CHR 0x22, CHR 0x5C, CHR 0x0A, CHR 0x0D, CHR 0x09, CHR 0x08, CHR 0x0C]"
        "\<not> (of_char c :: nat) < 32"
    by auto
  then show ?thesis
  proof cases
    case 8
    then show ?thesis
      using scan_string_unicode [OF hex4_control [OF 8(2)], of rest]
      by (simp add: escape_char_def)
  next
    case 9
    then show ?thesis
      by (simp add: escape_char_def scan_string_plain)
  qed (simp_all add: escape_char_def scan_string_escape unescape_def)
qed

lemma scan_string_encoded:
  "scan_string (concat (map escape_char k) @ CHR 0x22 # rest) = Some (k, rest)"
  by (induction k) (simp_all add: scan_string_quote scan_string_escape_char cons_fst_def)

lemma skip_ws_keep: "\<not> json_ws c \<Longrightarrow> skip_ws (c # cs) = c # cs"
  by (simp add: skip_ws_def)

lemma skip_ws_drop: "json_ws c \<Longrightarrow> skip_ws (c # cs) = skip_ws cs"
  by (simp add: skip_ws_def)

lemma json_ws_simps:
  "json_ws (CHR 0x0A)" "json_ws (CHR '' '')" "\<not> json_ws (CHR 0x22)" "\<not> json_ws (CHR '':'')"
  "\<not> json_ws (CHR '','')" "\<not> json_ws (CHR ''}'')" "\<not> json_ws (CHR ''{'')"
  "\<not> json_ws (CHR ''-'')"
  by (simp_all add: json_ws_def)

lemma is_digit_not_ws: "is_digit c \<Longrightarrow> \<not> json_ws c"
  by (auto simp: is_digit_def json_ws_def)

lemma ends_number_simps: "ends_number (CHR 0x0A)" "ends_number (CHR '','')"
  by (simp_all add: ends_number_def is_digit_def)

lemma str_int_starts: "\<exists>c cs. str_int v = c # cs \<and> \<not> json_ws c"
proof (cases "v < 0")
  case True
  then show ?thesis by (simp add: str_int_def json_ws_simps)
next
  case False
  obtain c cs where cs: "digits (nat \<bar>v\<bar>) = c # cs"
    using digits_not_empty [of "nat \<bar>v\<bar>"] by (cases "digits (nat \<bar>v\<bar>)") auto
  with digits_all [of "nat \<bar>v\<bar>"] have "is_digit c" by simp
  with False cs show ?thesis by (simp add: str_int_def is_digit_not_ws)
qed

lemma encode_item_Cons:
  "encode_item (k, v)
     = CHR 0x22 # concat (map escape_char k) @ CHR 0x22 # CHR '':'' # CHR '' '' # str_int v"
  by (simp add: encode_item_def encode_string_def)

text \<open>One round of the loop over the members, on the text of one member.\<close>

lemma scan_members_item:
  assumes "ends_number t"
  shows "scan_members (Suc fuel) (encode_item (k, v) @ t # ts) =
    (case skip_ws (t # ts) of
       [] \<Rightarrow> None
     | d # s5 \<Rightarrow>
         if d = CHR ''}'' then Some ([(k, v)], s5)
         else if d = CHR '','' then cons_fst (k, v) (scan_members fuel (skip_ws s5))
         else None)"
proof -
  obtain c cs where c: "str_int v = c # cs" "\<not> json_ws c"
    using str_int_starts [of v] by blast
  let ?after = "str_int v @ t # ts"
  have shape: "encode_item (k, v) @ t # ts
      = CHR 0x22 # concat (map escape_char k) @ CHR 0x22 # CHR '':'' # CHR '' '' # ?after"
    by (simp add: encode_item_Cons)
  have key: "scan_string (concat (map escape_char k) @ CHR 0x22 # CHR '':'' # CHR '' '' # ?after)
      = Some (k, CHR '':'' # CHR '' '' # ?after)"
    by (rule scan_string_encoded)
  have colon: "skip_ws (CHR '':'' # CHR '' '' # ?after) = CHR '':'' # CHR '' '' # ?after"
    by (simp add: skip_ws_keep json_ws_simps)
  have blank: "skip_ws (CHR '' '' # ?after) = ?after"
    using c by (simp add: skip_ws_drop skip_ws_keep json_ws_simps)
  have number: "scan_int ?after = Some (v, t # ts)"
    by (rule scan_int_str_int [OF assms])
  show ?thesis
    unfolding shape by (simp add: key colon blank number)
qed

lemma join_starts: "items \<noteq> [] \<Longrightarrow> \<exists>cs. join sep (map encode_item items) = CHR 0x22 # cs"
proof (induction sep "map encode_item items" arbitrary: items rule: join.induct)
  case (1 sep)
  then show ?case by simp
next
  case (2 sep x)
  then obtain k v where "items = [(k, v)]" by (cases items) auto
  then show ?case by (simp add: encode_item_Cons)
next
  case (3 sep x y ys)
  then obtain k v rest where "items = (k, v) # rest" by (cases items) auto
  with 3(2) show ?case by (cases rest) (auto simp: encode_item_Cons)
qed

lemma scan_members_join:
  "items \<noteq> [] \<Longrightarrow> length items \<le> fuel \<Longrightarrow>
   scan_members fuel (join member_sep (map encode_item items) @ CHR 0x0A # CHR ''}'' # rest)
     = Some (items, rest)"
proof (induction items arbitrary: fuel)
  case Nil
  then show ?case by simp
next
  case (Cons x items)
  obtain k v where x: "x = (k, v)" by (cases x)
  from Cons.prems obtain f where fuel: "fuel = Suc f" "length items \<le> f"
    by (cases fuel) auto
  show ?case
  proof (cases items)
    case Nil
    have "skip_ws (CHR 0x0A # CHR ''}'' # rest) = CHR ''}'' # rest"
      by (simp add: skip_ws_drop skip_ws_keep json_ws_simps)
    then show ?thesis
      using scan_members_item [OF ends_number_simps(1), of f k v "CHR ''}'' # rest"]
      by (simp add: Nil x fuel)
  next
    case (Cons y ys)
    then have ne: "items \<noteq> []" by simp
    from join_starts [OF ne, of member_sep] obtain cs where
      cs: "join member_sep (map encode_item items) = CHR 0x22 # cs" by blast
    let ?more = "join member_sep (map encode_item items) @ CHR 0x0A # CHR ''}'' # rest"
    have shape: "join member_sep (map encode_item (x # items)) @ CHR 0x0A # CHR ''}'' # rest
        = encode_item (k, v) @ CHR '','' # CHR 0x0A # CHR '' '' # CHR '' '' # ?more"
      by (simp add: Cons x member_sep_def)
    have comma: "skip_ws (CHR '','' # CHR 0x0A # CHR '' '' # CHR '' '' # ?more)
        = CHR '','' # CHR 0x0A # CHR '' '' # CHR '' '' # ?more"
      by (simp add: skip_ws_keep json_ws_simps)
    have indent: "skip_ws (CHR 0x0A # CHR '' '' # CHR '' '' # ?more) = ?more"
      by (simp add: skip_ws_drop skip_ws_keep json_ws_simps cs)
    have "scan_members f ?more = Some (items, rest)"
      by (rule Cons.IH [OF ne fuel(2)])
    then show ?thesis
      unfolding shape fuel(1)
      by (simp add: scan_members_item [OF ends_number_simps(2)] comma indent cons_fst_def x
          del: scan_members.simps)
  qed
qed

lemma length_join: "length items \<le> length (join sep (map encode_item items))"
proof (induction sep "map encode_item items" arbitrary: items rule: join.induct)
  case (1 sep)
  then show ?case by simp
next
  case (2 sep x)
  then obtain k v where "items = [(k, v)]" by (cases items) auto
  then show ?case by (simp add: encode_item_Cons)
next
  case (3 sep x y ys)
  then obtain k v rest where items: "items = (k, v) # rest" "y # ys = map encode_item rest"
    by (cases items) auto
  from 3(1) [OF items(2)] have "length rest \<le> length (join sep (map encode_item rest))" .
  with items 3(2) show ?case
    by (cases rest) (auto simp: encode_item_Cons)
qed

lemma loads_dumps: "loads (dumps d) = Some d"
proof (cases "d = []")
  case True
  then show ?thesis by (simp add: dumps_def loads_def skip_ws_def json_ws_def)
next
  case False
  let ?J = "join member_sep (map encode_item d)"
  from join_starts [OF False, of member_sep] obtain cs where cs: "?J = CHR 0x22 # cs" by blast
  let ?s1 = "CHR 0x0A # CHR '' '' # CHR '' '' # ?J @ [CHR 0x0A, CHR ''}'']"
  have shape: "dumps d = CHR ''{'' # ?s1"
    using False by (simp add: dumps_def member_sep_def)
  have brace: "skip_ws (CHR ''{'' # ?s1) = CHR ''{'' # ?s1"
    by (simp add: skip_ws_keep json_ws_simps)
  have indent: "skip_ws ?s1 = ?J @ [CHR 0x0A, CHR ''}'']"
    by (simp add: skip_ws_drop skip_ws_keep json_ws_simps cs)
  have fuel: "length d \<le> length ?s1"
    using length_join [of d member_sep] by simp
  have members: "scan_members (length ?s1) (?J @ [CHR 0x0A, CHR ''}'']) = Some (d, [])"
    using scan_members_join [OF False fuel, of "[]"] by simp
  have first: "?J @ [CHR 0x0A, CHR ''}''] = CHR 0x22 # cs @ [CHR 0x0A, CHR ''}'']"
    by (simp add: cs)
  show ?thesis
    unfolding shape loads_def brace
    by (simp only: list.case indent members first [symmetric] option.case prod.case)
       (simp add: first members [unfolded first] skip_ws_def)
qed

lemma py_json_reads_back: "json_parse py_json (json_dump py_json d) = Some d"
  by (simp add: py_json_def loads_dumps)

section \<open>The store\<close>

lemma fold_setitem_append:
  "distinct (map fst (A @ B)) \<Longrightarrow> fold (\<lambda>(k, v) d. dict_setitem k v d) B A = A @ B"
proof (induction B arbitrary: A)
  case Nil
  show ?case by simp
next
  case (Cons p B)
  obtain k v where p: "p = (k, v)" by (cases p)
  from Cons.prems p have notin: "k \<notin> fst ` set A" by auto
  from Cons.prems have "distinct (map fst ((A @ [p]) @ B))" by simp
  from Cons.IH [OF this] show ?case by (simp add: p dict_setitem_new [OF notin])
qed

lemma dict_of_items_wf: "wf_dict d \<Longrightarrow> dict_of_items d = d"
  using fold_setitem_append [of "[]" d] by (simp add: dict_of_items_def wf_dict_def)

lemma wf_fold_setitem:
  "wf_dict A \<Longrightarrow> wf_dict (fold (\<lambda>(k, v) d. dict_setitem k v d) B A)"
  by (induction B arbitrary: A) (auto simp: wf_dict_setitem)

lemma wf_dict_of_items: "wf_dict (dict_of_items ps)"
proof -
  have "wf_dict ([] :: ('a \<times> 'b) list)" by (simp add: wf_dict_def)
  from wf_fold_setitem [OF this] show ?thesis by (simp add: dict_of_items_def)
qed

lemma mset_sorted_reverse: "mset (sorted_reverse key xs) = mset xs"
  by (simp add: sorted_reverse_def)

lemma wf_sorted_reverse: "wf_dict d \<Longrightarrow> wf_dict (sorted_reverse key d)"
proof -
  have "mset (map fst (sorted_reverse key d)) = mset (map fst d)"
    by (simp add: mset_sorted_reverse)
  from mset_eq_imp_distinct_iff [OF this] show "wf_dict d \<Longrightarrow> wf_dict (sorted_reverse key d)"
    by (simp add: wf_dict_def)
qed

lemma sorted_data_eq: "wf_dict d \<Longrightarrow> sorted_data d = sorted_reverse snd d"
  by (simp add: sorted_data_def dict_of_items_wf wf_sorted_reverse)

lemma sorted_reverse_descending:
  "sorted_wrt (\<lambda>a b. key b \<le> key a) (sorted_reverse key xs)"
proof -
  have "sorted (map key (sort_key key (rev xs)))"
    by (rule sorted_sort_key)
  then have "sorted_wrt (\<lambda>a b. key a \<le> key b) (sort_key key (rev xs))"
    by (simp add: sorted_map)
  then show ?thesis
    by (simp add: sorted_reverse_def sorted_wrt_rev)
qed

lemma sorted_reverse_stable:
  "filter (\<lambda>y. key y = c) (sorted_reverse key xs) = filter (\<lambda>y. key y = c) xs"
proof -
  have "filter (\<lambda>y. key y = c) (sorted_reverse key xs)
      = rev (filter (\<lambda>y. key y = c) (sort_key key (rev xs)))"
    by (simp add: sorted_reverse_def rev_filter)
  also have "\<dots> = rev (filter (\<lambda>y. key y = c) (rev xs))"
    by (simp only: sort_key_stable)
  also have "\<dots> = filter (\<lambda>y. key y = c) xs"
    by (simp add: rev_filter)
  finally show ?thesis .
qed

lemma wf_sorted_data: "wf_dict (sorted_data d)"
  by (simp add: sorted_data_def wf_dict_of_items)

lemma map_of_sorted_data: "wf_dict d \<Longrightarrow> map_of (sorted_data d) = map_of d"
proof -
  assume wf: "wf_dict d"
  have "set (sorted_data d) = set d"
    using mset_eq_setD [OF mset_sorted_reverse [of snd d]] by (simp add: sorted_data_eq [OF wf])
  moreover have "distinct (map fst (sorted_data d))"
    using wf_sorted_data [of d] by (simp add: wf_dict_def)
  moreover have "distinct (map fst d)"
    using wf by (simp add: wf_dict_def)
  ultimately show ?thesis
    by (intro map_of_inject_set [THEN iffD2]) auto
qed

lemma dict_eq_map_of:
  assumes "wf_dict d1" and "wf_dict d2" and "map_of d1 = map_of d2"
  shows "dict_eq d1 d2"
proof -
  have len: "length d1 = length d2"
  proof -
    have "set (map fst d1) = set (map fst d2)"
      using assms(3) by (metis dom_map_of_conv_image_fst set_map)
    then have "card (set (map fst d1)) = card (set (map fst d2))" by simp
    with assms(1,2) show ?thesis
      by (simp add: wf_dict_def distinct_card del: set_map)
  qed
  have "map_of d2 k = Some v" if "(k, v) \<in> set d1" for k v
    using that assms(1,3) by (simp add: wf_dict_def flip: assms(3))
  with len show ?thesis
    by (auto simp: dict_eq_def list_all_iff)
qed

lemma dict_eq_refl: "wf_dict d \<Longrightarrow> dict_eq d d"
  by (rule dict_eq_map_of) simp_all

lemma wf_load_existing_data: "wf_dict (load_existing_data js fs)"
proof -
  have "wf_dict ([] :: count_map)" by (simp add: wf_dict_def)
  then show ?thesis
    by (auto simp: load_existing_data_def json_load_def wf_dict_of_items split: option.splits)
qed


text \<open>
  C6. Saving a dictionary and loading the file gives back a dictionary equal to it as a
  mapping: the same keys with the same counts. The write has to succeed, and the JSON
  library has to read back the text it wrote for the sorted dictionary, as \<open>py_json\<close> does
  for every dictionary (\<open>py_json_reads_back\<close>).
\<close>

theorem save_then_load:
  assumes wf: "wf_dict M" and w: "writable fs"
    and json: "json_parse js (json_dump js (sorted_data M)) = Some (sorted_data M)"
  shows "fst (save_data js M fs)
    \<and> dict_eq (load_existing_data js (snd (save_data js M fs))) M
    \<and> map_of (load_existing_data js (snd (save_data js M fs))) = map_of M"
proof -
  have saved: "save_data js M fs = (True, fs\<lparr>dados_json := Some (json_dump js (sorted_data M))\<rparr>)"
    using w by (simp add: save_data_def)
  have loaded: "load_existing_data js (snd (save_data js M fs)) = sorted_data M"
    by (simp add: saved load_existing_data_def json_load_def json
        dict_of_items_wf [OF wf_sorted_data])
  have same: "map_of (sorted_data M) = map_of M"
    by (rule map_of_sorted_data [OF wf])
  have "dict_eq (sorted_data M) M"
    by (rule dict_eq_map_of [OF wf_sorted_data wf same])
  with saved loaded same show ?thesis by simp
qed

theorem save_then_load_witness:
  "wf_dict [(''St. Joseph'', 2::int), (''St. Mary'', 5), (''St. Anne'', 2)]
   \<and> writable \<lparr>dados_json = None, writable = True\<rparr>
   \<and> load_existing_data py_json
        (snd (save_data py_json [(''St. Joseph'', 2), (''St. Mary'', 5), (''St. Anne'', 2)]
           \<lparr>dados_json = None, writable = True\<rparr>))
      = [(''St. Mary'', 5), (''St. Joseph'', 2), (''St. Anne'', 2)]
   \<and> dict_eq (load_existing_data py_json
        (snd (save_data py_json [(''St. Joseph'', 2), (''St. Mary'', 5), (''St. Anne'', 2)]
           \<lparr>dados_json = None, writable = True\<rparr>)))
        [(''St. Joseph'', 2), (''St. Mary'', 5), (''St. Anne'', 2)]"
proof -
  have wf: "wf_dict [(''St. Joseph'', 2::int), (''St. Mary'', 5), (''St. Anne'', 2)]"
    by (simp add: wf_dict_def)
  have w: "writable \<lparr>dados_json = None, writable = True\<rparr>"
    by simp
  have json: "json_parse py_json
      (json_dump py_json (sorted_data [(''St. Joseph'', 2), (''St. Mary'', 5), (''St. Anne'', 2)]))
      = Some (sorted_data [(''St. Joseph'', 2), (''St. Mary'', 5), (''St. Anne'', 2)])"
    by (rule py_json_reads_back)
  have got: "load_existing_data py_json
        (snd (save_data py_json [(''St. Joseph'', 2), (''St. Mary'', 5), (''St. Anne'', 2)]
           \<lparr>dados_json = None, writable = True\<rparr>))
      = [(''St. Mary'', 5), (''St. Joseph'', 2), (''St. Anne'', 2)]"
    by code_simp
  from save_then_load [OF wf w json] wf w got show ?thesis by blast
qed

text \<open>
  C7. A successful save replaces the content of the file by the text of the sorted
  dictionary, whatever the file held before. The sorted dictionary has the entries of the
  one passed in, by non-increasing count, and entries of equal count stand in the order they
  had in the dictionary passed in.
\<close>

theorem save_data_order:
  assumes wf: "wf_dict M" and w: "writable fs"
  shows "save_data js M fs = (True, fs\<lparr>dados_json := Some (json_dump js (sorted_data M))\<rparr>)
    \<and> sorted_wrt (\<lambda>a b. snd b \<le> snd a) (sorted_data M)
    \<and> (\<forall>c. filter (\<lambda>p. snd p = c) (sorted_data M) = filter (\<lambda>p. snd p = c) M)
    \<and> mset (sorted_data M) = mset M"
  using w
  by (simp add: save_data_def sorted_data_eq [OF wf] sorted_reverse_descending
      sorted_reverse_stable mset_sorted_reverse)

theorem save_data_order_witness:
  "wf_dict [(''St. Joseph'', 2::int), (''St. Mary'', 5), (''St. Anne'', 2)]
   \<and> writable \<lparr>dados_json = Some ''{}'', writable = True\<rparr>
   \<and> sorted_data [(''St. Joseph'', 2), (''St. Mary'', 5), (''St. Anne'', 2)]
      = [(''St. Mary'', 5), (''St. Joseph'', 2), (''St. Anne'', 2)]
   \<and> save_data py_json [(''St. Joseph'', 2), (''St. Mary'', 5), (''St. Anne'', 2)]
        \<lparr>dados_json = Some ''{}'', writable = True\<rparr>
      = (True, \<lparr>dados_json = Some (json_dump py_json
           [(''St. Mary'', 5), (''St. Joseph'', 2), (''St. Anne'', 2)]), writable = True\<rparr>)"
proof -
  have wf: "wf_dict [(''St. Joseph'', 2::int), (''St. Mary'', 5), (''St. Anne'', 2)]"
    by (simp add: wf_dict_def)
  have w: "writable \<lparr>dados_json = Some ''{}'', writable = True\<rparr>"
    by simp
  have srt: "sorted_data [(''St. Joseph'', 2), (''St. Mary'', 5), (''St. Anne'', 2)]
      = [(''St. Mary'', 5), (''St. Joseph'', 2), (''St. Anne'', 2)]"
    by code_simp
  from save_data_order [OF wf w, of py_json] wf w srt show ?thesis by simp
qed

text \<open>
  C9. When the file does not exist, or the JSON library cannot parse its text, loading
  returns the empty dictionary; the run goes on with it.
\<close>

theorem load_existing_data_failure:
  assumes "dados_json fs = None \<or> (\<exists>text. dados_json fs = Some text \<and> json_parse js text = None)"
  shows "load_existing_data js fs = []"
  using assms by (auto simp: load_existing_data_def json_load_def)

theorem load_existing_data_failure_witness:
  "dados_json \<lparr>dados_json = None, writable = True\<rparr> = None
   \<and> load_existing_data py_json \<lparr>dados_json = None, writable = True\<rparr> = []
   \<and> json_parse py_json ''{'' = None
   \<and> load_existing_data py_json \<lparr>dados_json = Some ''{'', writable = True\<rparr> = []"
proof -
  have absent: "dados_json \<lparr>dados_json = None, writable = True\<rparr> = None"
    by simp
  have corrupt: "json_parse py_json ''{'' = None"
    by code_simp
  have a: "load_existing_data py_json \<lparr>dados_json = None, writable = True\<rparr> = []"
    by (rule load_existing_data_failure) simp
  have b: "load_existing_data py_json \<lparr>dados_json = Some ''{'', writable = True\<rparr> = []"
    by (rule load_existing_data_failure) (simp add: corrupt)
  from absent corrupt a b show ?thesis by blast
qed


section \<open>The orchestrator\<close>

lemma set_dict_setitem: "set (dict_setitem k v d) \<subseteq> insert (k, v) (set d)"
  by (induction d) (auto split: if_splits)

lemma counter_add_positive:
  assumes "\<forall>(k, n) \<in> set d. 1 \<le> n"
  shows "\<forall>(k, n) \<in> set (counter_add elem d). 1 \<le> n"
proof -
  have new: "1 \<le> (case map_of d elem of None \<Rightarrow> 0 | Some n \<Rightarrow> n) + 1"
    using assms by (auto split: option.split dest!: map_of_SomeD)
  show ?thesis
    unfolding counter_add_def using set_dict_setitem [of elem _ d] assms new by fastforce
qed

lemma fold_counter_add_positive:
  "\<forall>(k, n) \<in> set d. 1 \<le> n \<Longrightarrow> \<forall>(k, n) \<in> set (fold counter_add xs d). 1 \<le> n"
proof (induction xs arbitrary: d)
  case Nil
  then show ?case by simp
next
  case (Cons x xs)
  from Cons.IH [OF counter_add_positive [OF Cons.prems]] show ?case by simp
qed

lemma Counter_positive: "\<forall>(k, n) \<in> set (Counter xs). 1 \<le> n"
  unfolding Counter_def by (rule fold_counter_add_positive) simp

lemma wf_Counter: "wf_dict (Counter xs)"
proof -
  have "wf_dict d \<Longrightarrow> wf_dict (fold counter_add xs d)" for d :: "('a \<times> int) list"
    by (induction xs arbitrary: d) (simp_all add: counter_add_def wf_dict_setitem)
  then show ?thesis by (simp add: Counter_def wf_dict_def)
qed

lemma tabulate_Counter: "tabulate column = Counter (filter keeps (dropna column))"
  by (simp add: tabulate_def dict_of_items_wf [OF wf_Counter])

lemma tabulate_positive: "\<forall>(k, n) \<in> set (tabulate column). 1 \<le> n"
  by (simp add: tabulate_Counter Counter_positive)

lemma process_paroquia_data_positive: "\<forall>(k, n) \<in> set (process_paroquia_data df). 1 \<le> n"
  using tabulate_positive
  by (auto simp: process_paroquia_data_def split: option.splits)

lemma wf_tabulate: "wf_dict (tabulate column)"
  by (simp add: tabulate_Counter wf_Counter)

lemma wf_process_paroquia_data: "wf_dict (process_paroquia_data df)"
proof -
  have "wf_dict ([] :: count_map)" by (simp add: wf_dict_def)
  then show ?thesis
    by (auto simp: process_paroquia_data_def wf_tabulate split: option.splits)
qed

lemma merge_data_active:
  assumes pos: "\<forall>(k, n) \<in> set new_data. 1 \<le> n" and ne: "new_data \<noteq> []"
  shows "0 < length (filter (\<lambda>(p, c). c > 0) (merge_data existing_data new_data))"
proof -
  from ne obtain k b where kb: "(k, b) \<in> set new_data"
    by (cases new_data) auto
  with pos have b: "1 \<le> b" by auto
  from fold_merge_step_covers_new [OF kb, of existing_data] obtain m where
    m: "map_of (merge_data existing_data new_data) k = Some m" "b \<le> m"
    by (auto simp: merge_data_def)
  from m(1) have "(k, m) \<in> set (merge_data existing_data new_data)"
    by (rule map_of_SomeD)
  moreover from b m(2) have "0 < m" by simp
  ultimately have "(k, m) \<in> set (filter (\<lambda>(p, c). c > 0) (merge_data existing_data new_data))"
    by simp
  then show ?thesis
    by (metis length_pos_if_in_set)
qed

lemma final_stats_active:
  assumes "0 < length (filter (\<lambda>(p, c). c > 0) final_data)"
  shows "\<exists>report. final_stats final_data = Inr report \<and> 0 < total_paroquias report
    \<and> media report = Some (of_int (total_inscricoes report) / of_int (total_paroquias report))"
  using assms by (simp add: final_stats_def py_truediv_def Let_def)

lemma load_after_write:
  "json_parse js text = Some d \<Longrightarrow> wf_dict d \<Longrightarrow>
   load_existing_data js (fs\<lparr>dados_json := Some text\<rparr>) = d"
  by (simp add: load_existing_data_def json_load_def dict_of_items_wf)

text \<open>
  C10. Every count that the tabulator returns is at least 1. So when the sheet identifier
  is set, the fresh data is not empty and the save succeeds, \<open>main\<close> returns with a report
  in which the number of categories with a positive count is positive and the mean is the
  quotient by that number: the division is never by zero.
\<close>

theorem report_divides_by_positive:
  assumes sheet: "environ_get env \<noteq> []"
    and fresh: "new_data = process_paroquia_data (get_sheet_data web (environ_get env))"
    and ne: "new_data \<noteq> []"
    and w: "writable fs"
  shows "(\<forall>(k, n) \<in> set new_data. 1 \<le> n)
    \<and> (\<exists>fs' report. main js web env fs = (Returned, fs', Some report)
          \<and> 0 < total_paroquias report
          \<and> media report
              = Some (of_int (total_inscricoes report) / of_int (total_paroquias report)))"
proof -
  have pos: "\<forall>(k, n) \<in> set new_data. 1 \<le> n"
    unfolding fresh by (rule process_paroquia_data_positive)
  let ?final = "merge_data (load_existing_data js fs) new_data"
  from final_stats_active [OF merge_data_active [OF pos ne]] obtain report where
    report: "final_stats ?final = Inr report" "0 < total_paroquias report"
      "media report = Some (of_int (total_inscricoes report) / of_int (total_paroquias report))"
    by blast
  have "main js web env fs
      = (Returned, fs\<lparr>dados_json := Some (json_dump js (sorted_data ?final))\<rparr>, Some report)"
    using sheet ne w report(1) unfolding fresh
    by (simp add: main_def save_data_def Let_def)
  with pos report show ?thesis by blast
qed

theorem report_divides_by_positive_witness:
  "environ_get None \<noteq> []
   \<and> process_paroquia_data (get_sheet_data (serves example_sheet) (environ_get None)) \<noteq> []
   \<and> writable example_files
   \<and> process_paroquia_data (get_sheet_data (serves example_sheet) (environ_get None))
      = [(''Par'' @ [CHR 0xF3] @ ''quia A'', 2), (''Par'' @ [CHR 0xF3] @ ''quia B'', 1)]
   \<and> (\<exists>fs' report. main py_json (serves example_sheet) None example_files
          = (Returned, fs', Some report) \<and> 0 < total_paroquias report)"
proof -
  have sheet: "environ_get None \<noteq> []"
    by code_simp
  have ne: "process_paroquia_data (get_sheet_data (serves example_sheet) (environ_get None)) \<noteq> []"
    by code_simp
  have w: "writable example_files"
    by code_simp
  have fresh: "process_paroquia_data (get_sheet_data (serves example_sheet) (environ_get None))
      = [(''Par'' @ [CHR 0xF3] @ ''quia A'', 2), (''Par'' @ [CHR 0xF3] @ ''quia B'', 1)]"
    by code_simp
  from report_divides_by_positive [OF sheet refl ne w, of py_json] sheet ne w fresh
  show ?thesis by blast
qed

text \<open>
  C8. When the sheet identifier is set and the fresh tabulation is empty, the run ends
  with exit code 0 and the files are exactly the ones it started with.
\<close>

theorem main_no_new_data:
  assumes "environ_get env \<noteq> []"
    and "process_paroquia_data (get_sheet_data web (environ_get env)) = []"
  shows "main js web env fs = (Exit 0, fs, None) \<and> exit_code (fst (main js web env fs)) = 0"
  using assms by (simp add: main_def Let_def)

theorem main_no_new_data_witness:
  "environ_get None \<noteq> []
   \<and> process_paroquia_data (get_sheet_data (serves blank_sheet) (environ_get None)) = []
   \<and> main py_json (serves blank_sheet) None example_files = (Exit 0, example_files, None)"
proof -
  have sheet: "environ_get None \<noteq> []"
    by code_simp
  have empty: "process_paroquia_data (get_sheet_data (serves blank_sheet) (environ_get None)) = []"
    by code_simp
  from main_no_new_data [OF sheet empty, of py_json example_files] sheet empty
  show ?thesis by blast
qed

text \<open>
  C4, as stated, has a failed fetch end the run with a non-zero exit code. With the default
  sheet identifier and a web where every request fails, the run ends with exit code 0.
\<close>

theorem fetch_failure_exits_zero:
  "no_network (environ_get None) = Fetch_failed
   \<and> exit_code (fst (main py_json no_network None example_files)) = 0"
  by (simp add: no_network_def main_def Let_def get_sheet_data_def process_paroquia_data_def
      environ_get_def default_sheet_id_def)

text \<open>
  C4, amended. When the sheet identifier is set and the fetch fails, the run stops before
  it loads or saves anything: the files are exactly the ones it started with, and the exit
  code is 0, as for a run that finds no new data.
\<close>

theorem main_fetch_failure:
  assumes "environ_get env \<noteq> []" and "web (environ_get env) = Fetch_failed"
  shows "main js web env fs = (Exit 0, fs, None) \<and> exit_code (fst (main js web env fs)) = 0"
  using assms by (simp add: main_def Let_def get_sheet_data_def process_paroquia_data_def)


theorem main_fetch_failure_witness:
  "environ_get None \<noteq> []
   \<and> no_network (environ_get None) = Fetch_failed
   \<and> main py_json no_network None example_files = (Exit 0, example_files, None)"
proof -
  have sheet: "environ_get None \<noteq> []"
    by code_simp
  have failed: "no_network (environ_get None) = Fetch_failed"
    by (simp add: no_network_def)
  from main_fetch_failure [where web = no_network and env = None and js = py_json
      and fs = example_files, OF sheet failed] sheet failed
  show ?thesis by blast
qed

text \<open>
  C2. After a run that ends with exit code 0, the dictionary loaded from the file equals
  the merge of the dictionary loaded before the run with the fresh data of the run, and
  every key that was loaded before the run is still there with a count that is not smaller.
  The JSON library has to read back the text it wrote for the merged dictionary, as
  \<open>py_json\<close> does for every dictionary (\<open>py_json_reads_back\<close>).
\<close>

theorem main_persists_merge:
  assumes fresh: "new_data = process_paroquia_data (get_sheet_data web (environ_get env))"
    and run: "main js web env fs = (e, fs', r)"
    and ok: "exit_code e = 0"
    and json: "new_data \<noteq> [] \<longrightarrow>
      json_parse js (json_dump js (sorted_data (merge_data (load_existing_data js fs) new_data)))
        = Some (sorted_data (merge_data (load_existing_data js fs) new_data))"
  shows "dict_eq (load_existing_data js fs') (merge_data (load_existing_data js fs) new_data)
    \<and> (\<forall>k v. map_of (load_existing_data js fs) k = Some v
          \<longrightarrow> (\<exists>v'. map_of (load_existing_data js fs') k = Some v' \<and> v \<le> v'))"
proof -
  let ?old = "load_existing_data js fs"
  let ?final = "merge_data ?old new_data"
  have wf_old: "wf_dict ?old"
    by (rule wf_load_existing_data)
  have wf_final: "wf_dict ?final"
    unfolding merge_data_def by (rule wf_fold_merge_step [OF wf_old])
  have grows: "\<exists>v'. map_of ?final k = Some v' \<and> v \<le> v'" if "map_of ?old k = Some v" for k v
    unfolding merge_data_def by (rule fold_merge_step_covers [OF that]) simp
  from run ok have sheet: "environ_get env \<noteq> []"
    by (auto simp: main_def Let_def)
  show ?thesis
  proof (cases "new_data = []")
    case True
    with run sheet fresh have "fs' = fs"
      by (simp add: main_def Let_def)
    then show ?thesis
      using True dict_eq_refl [OF wf_old] by (simp add: merge_data_def)
  next
    case False
    with json have reads: "json_parse js (json_dump js (sorted_data ?final))
        = Some (sorted_data ?final)"
      by simp
    from run ok sheet False fresh have w: "writable fs"
      by (auto simp: main_def Let_def save_data_def split: if_splits)
    with run sheet False fresh
    have new_fs: "fs' = fs\<lparr>dados_json := Some (json_dump js (sorted_data ?final))\<rparr>"
      by (auto simp: main_def Let_def save_data_def split: sum.splits)
    have loaded: "load_existing_data js fs' = sorted_data ?final"
      unfolding new_fs by (rule load_after_write [OF reads wf_sorted_data])
    have same: "map_of (sorted_data ?final) = map_of ?final"
      by (rule map_of_sorted_data [OF wf_final])
    have "dict_eq (sorted_data ?final) ?final"
      by (rule dict_eq_map_of [OF wf_sorted_data wf_final same])
    with loaded same grows show ?thesis by simp
  qed
qed

theorem main_persists_merge_witness:
  "exit_code (fst (main py_json (serves example_sheet) None example_files)) = 0
   \<and> load_existing_data py_json example_files
      = [(''Par'' @ [CHR 0xF3] @ ''quia A'', 5), (''St. Joseph'', 2)]
   \<and> process_paroquia_data (get_sheet_data (serves example_sheet) (environ_get None))
      = [(''Par'' @ [CHR 0xF3] @ ''quia A'', 2), (''Par'' @ [CHR 0xF3] @ ''quia B'', 1)]
   \<and> load_existing_data py_json (fst (snd (main py_json (serves example_sheet) None example_files)))
      = [(''Par'' @ [CHR 0xF3] @ ''quia A'', 5), (''St. Joseph'', 2),
         (''Par'' @ [CHR 0xF3] @ ''quia B'', 1)]
   \<and> dict_eq
        (load_existing_data py_json
           (fst (snd (main py_json (serves example_sheet) None example_files))))
        (merge_data (load_existing_data py_json example_files)
           (process_paroquia_data (get_sheet_data (serves example_sheet) (environ_get None))))"
proof -
  have run: "main py_json (serves example_sheet) None example_files
      = (fst (main py_json (serves example_sheet) None example_files),
         fst (snd (main py_json (serves example_sheet) None example_files)),
         snd (snd (main py_json (serves example_sheet) None example_files)))"
    by simp
  have ok: "exit_code (fst (main py_json (serves example_sheet) None example_files)) = 0"
    by code_simp
  have json: "process_paroquia_data (get_sheet_data (serves example_sheet) (environ_get None)) \<noteq> []
      \<longrightarrow> json_parse py_json (json_dump py_json (sorted_data
            (merge_data (load_existing_data py_json example_files)
               (process_paroquia_data (get_sheet_data (serves example_sheet) (environ_get None))))))
        = Some (sorted_data
            (merge_data (load_existing_data py_json example_files)
               (process_paroquia_data (get_sheet_data (serves example_sheet) (environ_get None)))))"
    by (simp add: py_json_reads_back)
  have before: "load_existing_data py_json example_files
      = [(''Par'' @ [CHR 0xF3] @ ''quia A'', 5), (''St. Joseph'', 2)]"
    by code_simp
  have fresh: "process_paroquia_data (get_sheet_data (serves example_sheet) (environ_get None))
      = [(''Par'' @ [CHR 0xF3] @ ''quia A'', 2), (''Par'' @ [CHR 0xF3] @ ''quia B'', 1)]"
    by code_simp
  have later: "load_existing_data py_json
        (fst (snd (main py_json (serves example_sheet) None example_files)))
      = [(''Par'' @ [CHR 0xF3] @ ''quia A'', 5), (''St. Joseph'', 2),
         (''Par'' @ [CHR 0xF3] @ ''quia B'', 1)]"
    by code_simp
  from main_persists_merge [OF refl run ok json] ok before fresh later show ?thesis by blast
qed


end
